theory Spec2Isabelle
  imports Main
begin

section \<open>singleflight: the data model\<close>

text \<open>
  Python values that reach \<open>SingleFlight.call\<close>. A function object is identified by a
  number; what it does when invoked is given by a behaviour table (see \<open>apply_fn\<close>).
\<close>

datatype pyval = PNone | PBool bool | PInt int | PStr string | PFunc nat

text \<open>
  Exception objects. \<open>TypeError\<close>, \<open>KeyError\<close> and \<open>RuntimeError\<close> are the built-in
  ones the module itself can raise. \<open>Custom name is_exc truthy\<close> is any other exception
  object: \<open>is_exc\<close> says whether its class derives from \<open>Exception\<close> (it is False for
  \<open>KeyboardInterrupt\<close>, \<open>SystemExit\<close>, ...), \<open>truthy\<close> is its truth value (True unless
  the class overrides \<open>__bool__\<close> or \<open>__len__\<close>).
\<close>

datatype exc =
    TypeError string
  | KeyError pyval
  | RuntimeError string
  | Custom string bool bool

fun is_Exception :: "exc \<Rightarrow> bool" where
  "is_Exception (Custom n b t) = b"
| "is_Exception e = True"

fun truthy :: "exc \<Rightarrow> bool" where
  "truthy (Custom n b t) = t"
| "truthy e = True"

text \<open>What invoking the operation does: it returns, raises, or never comes back.\<close>

datatype outcome = Returns pyval | Raises exc | Hangs

text \<open>What \<open>call\<close> delivers to its caller.\<close>

datatype result = Returned pyval | Raised exc

type_synonym addr = nat
type_synonym tid = nat
type_synonym kwargs = "(string \<times> pyval) list"

text \<open>class \<open>CallLock\<close>: the event, the result slot, the error slot (None is Python's None).\<close>

record calllock =
  ev :: bool
  res :: pyval
  err :: "exc option"

definition CallLock :: calllock where
  "CallLock = \<lparr>ev = False, res = PNone, err = None\<rparr>"

text \<open>The actual parameters of one invocation of \<open>call(fn, key, *args, **kwargs)\<close>.\<close>

record callargs =
  fn :: pyval
  key :: pyval
  args :: "pyval list"
  kwargs :: kwargs

text \<open>
  The control point of a thread inside \<open>call\<close>; the comment gives the source line.
  Local variables (\<open>cl\<close>, the caught exception \<open>e\<close>, the event being waited on) are
  carried by the constructor.
\<close>

datatype pc =
    Validate              \<comment> \<open>53-56: the two isinstance checks\<close>
  | Acquire               \<comment> \<open>60: self.lock.acquire(True)\<close>
  | CheckKey              \<comment> \<open>61: if key in self.m\<close>
  | FRelease              \<comment> \<open>65: self.lock.release()\<close>
  | FLookup               \<comment> \<open>66: self.m[key].ev\<close>
  | FWait addr            \<comment> \<open>66: .wait()\<close>
  | FCheckErr             \<comment> \<open>68: if self.m[key].err\<close>
  | FRaise                \<comment> \<open>69: raise self.m[key].err\<close>
  | FReturn               \<comment> \<open>70: return self.m[key].res\<close>
  | LCreate               \<comment> \<open>72-73: cl = CallLock(); self.m[key] = cl\<close>
  | LRelease addr         \<comment> \<open>74: self.lock.release()\<close>
  | LInvoke addr          \<comment> \<open>77: cl.res = fn(*args, **kwargs)\<close>
  | LClearErr addr        \<comment> \<open>78: cl.err = None\<close>
  | LExcRes addr exc      \<comment> \<open>80: cl.res = None\<close>
  | LExcErr addr exc      \<comment> \<open>81: cl.err = e\<close>
  | LSet addr             \<comment> \<open>87: cl.ev.set()\<close>
  | LSleep addr           \<comment> \<open>88: sleep(0.01)\<close>
  | LAcquire addr         \<comment> \<open>92: with self.lock (enter)\<close>
  | LDel addr             \<comment> \<open>93: del(self.m[key])\<close>
  | LExit addr            \<comment> \<open>92: with self.lock (exit)\<close>
  | LCheckErr addr        \<comment> \<open>95: if cl.err is not None\<close>
  | LRaise addr           \<comment> \<open>96: raise cl.err\<close>
  | LReturn addr          \<comment> \<open>97: return cl.res\<close>
  | Hung                  \<comment> \<open>inside fn, which never returns\<close>
  | Done result

text \<open>
  The shared state of one \<open>SingleFlight\<close> object and its callers: \<open>lock\<close> is
  \<open>self.lock\<close> (True when held), \<open>m\<close> is the dict \<open>self.m\<close>, mapping a key to the
  address of its \<open>CallLock\<close>; \<open>heap\<close> holds the \<open>CallLock\<close> objects and \<open>nxt\<close> is the
  next unused address. \<open>log\<close> records every invocation of an operation, oldest first:
  the invoking thread, the function object, the positional and keyword arguments, and
  what the invocation did. \<open>pcs\<close> gives each thread's control point.
\<close>

record state =
  lock :: bool
  m :: "pyval \<rightharpoonup> addr"
  heap :: "addr \<Rightarrow> calllock"
  nxt :: addr
  log :: "(tid \<times> pyval \<times> pyval list \<times> kwargs \<times> outcome) list"
  pcs :: "tid \<Rightarrow> pc"

definition init :: state where
  "init = \<lparr>lock = False, m = Map.empty, heap = (\<lambda>a. CallLock), nxt = 0, log = [],
           pcs = (\<lambda>t. Validate)\<rparr>"

section \<open>singleflight: \<open>SingleFlight.call\<close>\<close>

fun is_str :: "pyval \<Rightarrow> bool" where
  "is_str (PStr s) = True"
| "is_str v = False"

fun callable :: "pyval \<Rightarrow> bool" where
  "callable (PFunc i) = True"
| "callable v = False"

text \<open>Lines 53-56: the error raised by the argument checks, if any.\<close>

definition validate :: "pyval \<Rightarrow> pyval \<Rightarrow> exc option" where
  "validate f k =
     (if \<not> is_str k then Some (TypeError ''Key should be a str'')
      else if \<not> callable f then Some (TypeError ''fn should be a callable'')
      else None)"

text \<open>
  \<open>fn(*args, **kwargs)\<close>. The behaviour table \<open>beh\<close> gives, for each function object, its
  outcome on the arguments; the last argument of \<open>beh\<close> is the number of operations invoked
  so far, so that an operation may depend on shared state such as a counter. Calling an
  object that is not callable raises \<open>TypeError\<close>.
\<close>

type_synonym behaviour = "nat \<Rightarrow> pyval list \<Rightarrow> kwargs \<Rightarrow> nat \<Rightarrow> outcome"

fun apply_fn :: "behaviour \<Rightarrow> pyval \<Rightarrow> pyval list \<Rightarrow> kwargs \<Rightarrow> nat \<Rightarrow> outcome" where
  "apply_fn beh (PFunc i) as kw n = beh i as kw n"
| "apply_fn beh v as kw n = Raises (TypeError ''object is not callable'')"

definition goto :: "tid \<Rightarrow> pc \<Rightarrow> state \<Rightarrow> state" where
  "goto t p s = s\<lparr>pcs := (pcs s)(t := p)\<rparr>"

text \<open>
  One atomic action of thread \<open>t\<close>, whose call has the actual parameters \<open>c\<close>.
  None means that the thread cannot move: it is blocked on the lock or on an event, it is
  inside an operation that never returns, or its call is over. Each access to the lock,
  to \<open>self.m\<close> or to a \<open>CallLock\<close> is an action of its own, so that the other threads
  may run between any two of them; the operation itself runs in one action, at line 77.
\<close>

fun step_pc :: "behaviour \<Rightarrow> callargs \<Rightarrow> tid \<Rightarrow> pc \<Rightarrow> state \<Rightarrow> state option" where
  "step_pc beh c t Validate s =
     (case validate (fn c) (key c) of
        Some e \<Rightarrow> Some (goto t (Done (Raised e)) s)
      | None \<Rightarrow> Some (goto t Acquire s))"
| "step_pc beh c t Acquire s =
     (if lock s then None else Some (goto t CheckKey (s\<lparr>lock := True\<rparr>)))"
| "step_pc beh c t CheckKey s =
     (if key c \<in> dom (m s) then Some (goto t FRelease s) else Some (goto t LCreate s))"
| "step_pc beh c t FRelease s =
     (if lock s then Some (goto t FLookup (s\<lparr>lock := False\<rparr>))
      else Some (goto t (Done (Raised (RuntimeError ''release unlocked lock''))) s))"
| "step_pc beh c t FLookup s =
     (case m s (key c) of
        None \<Rightarrow> Some (goto t (Done (Raised (KeyError (key c)))) s)
      | Some a \<Rightarrow> Some (goto t (FWait a) s))"
| "step_pc beh c t (FWait a) s =
     (if ev (heap s a) then Some (goto t FCheckErr s) else None)"
| "step_pc beh c t FCheckErr s =
     (case m s (key c) of
        None \<Rightarrow> Some (goto t (Done (Raised (KeyError (key c)))) s)
      | Some a \<Rightarrow>
          (case err (heap s a) of
             None \<Rightarrow> Some (goto t FReturn s)
           | Some e \<Rightarrow> if truthy e then Some (goto t FRaise s) else Some (goto t FReturn s)))"
| "step_pc beh c t FRaise s =
     (case m s (key c) of
        None \<Rightarrow> Some (goto t (Done (Raised (KeyError (key c)))) s)
      | Some a \<Rightarrow>
          (case err (heap s a) of
             None \<Rightarrow> Some (goto t (Done (Raised (TypeError ''exceptions must derive from BaseException''))) s)
           | Some e \<Rightarrow> Some (goto t (Done (Raised e)) s)))"
| "step_pc beh c t FReturn s =
     (case m s (key c) of
        None \<Rightarrow> Some (goto t (Done (Raised (KeyError (key c)))) s)
      | Some a \<Rightarrow> Some (goto t (Done (Returned (res (heap s a)))) s))"
| "step_pc beh c t LCreate s =
     Some (goto t (LRelease (nxt s))
       (s\<lparr>heap := (heap s)(nxt s := CallLock), nxt := Suc (nxt s),
          m := (m s)(key c \<mapsto> nxt s)\<rparr>))"
| "step_pc beh c t (LRelease a) s =
     (if lock s then Some (goto t (LInvoke a) (s\<lparr>lock := False\<rparr>))
      else Some (goto t (Done (Raised (RuntimeError ''release unlocked lock''))) s))"
| "step_pc beh c t (LInvoke a) s =
     (let out = apply_fn beh (fn c) (args c) (kwargs c) (length (log s));
          s' = s\<lparr>log := log s @ [(t, fn c, args c, kwargs c, out)]\<rparr> in
      case out of
        Returns v \<Rightarrow> Some (goto t (LClearErr a) (s'\<lparr>heap := (heap s)(a := (heap s a)\<lparr>res := v\<rparr>)\<rparr>))
      | Raises e \<Rightarrow>
          if is_Exception e then Some (goto t (LExcRes a e) s')
          else Some (goto t (Done (Raised e)) s')
      | Hangs \<Rightarrow> Some (goto t Hung s'))"
| "step_pc beh c t (LClearErr a) s =
     Some (goto t (LSet a) (s\<lparr>heap := (heap s)(a := (heap s a)\<lparr>err := None\<rparr>)\<rparr>))"
| "step_pc beh c t (LExcRes a e) s =
     Some (goto t (LExcErr a e) (s\<lparr>heap := (heap s)(a := (heap s a)\<lparr>res := PNone\<rparr>)\<rparr>))"
| "step_pc beh c t (LExcErr a e) s =
     Some (goto t (LSet a) (s\<lparr>heap := (heap s)(a := (heap s a)\<lparr>err := Some e\<rparr>)\<rparr>))"
| "step_pc beh c t (LSet a) s =
     Some (goto t (LSleep a) (s\<lparr>heap := (heap s)(a := (heap s a)\<lparr>ev := True\<rparr>)\<rparr>))"
| "step_pc beh c t (LSleep a) s = Some (goto t (LAcquire a) s)"
| "step_pc beh c t (LAcquire a) s =
     (if lock s then None else Some (goto t (LDel a) (s\<lparr>lock := True\<rparr>)))"
| "step_pc beh c t (LDel a) s =
     (if key c \<in> dom (m s) then Some (goto t (LExit a) (s\<lparr>m := (m s)(key c := None)\<rparr>))
      else Some (goto t (Done (Raised (KeyError (key c)))) (s\<lparr>lock := False\<rparr>)))"
| "step_pc beh c t (LExit a) s =
     (if lock s then Some (goto t (LCheckErr a) (s\<lparr>lock := False\<rparr>))
      else Some (goto t (Done (Raised (RuntimeError ''release unlocked lock''))) s))"
| "step_pc beh c t (LCheckErr a) s =
     (if err (heap s a) \<noteq> None then Some (goto t (LRaise a) s) else Some (goto t (LReturn a) s))"
| "step_pc beh c t (LRaise a) s =
     (case err (heap s a) of
        None \<Rightarrow> Some (goto t (Done (Raised (TypeError ''exceptions must derive from BaseException''))) s)
      | Some e \<Rightarrow> Some (goto t (Done (Raised e)) s))"
| "step_pc beh c t (LReturn a) s = Some (goto t (Done (Returned (res (heap s a)))) s)"
| "step_pc beh c t Hung s = None"
| "step_pc beh c t (Done r) s = None"

text \<open>Thread \<open>t\<close> moves; \<open>calls t\<close> are the actual parameters of its call.\<close>

definition step :: "behaviour \<Rightarrow> (tid \<Rightarrow> callargs) \<Rightarrow> tid \<Rightarrow> state \<Rightarrow> state option" where
  "step beh calls t s = step_pc beh (calls t) t (pcs s t) s"

text \<open>
  A schedule is the list of the threads that move, in order. \<open>exec\<close> is None when the
  schedule asks a thread to move that cannot.
\<close>

fun exec :: "behaviour \<Rightarrow> (tid \<Rightarrow> callargs) \<Rightarrow> tid list \<Rightarrow> state \<Rightarrow> state option" where
  "exec beh calls [] s = Some s"
| "exec beh calls (t # ts) s =
     (case step beh calls t s of None \<Rightarrow> None | Some s' \<Rightarrow> exec beh calls ts s')"


section \<open>singleflight: \<open>SingleFlight.wrap\<close>\<close>

text \<open>
  Line 45, \<open>def call(self, fn, key, *args, **kwargs)\<close>: how Python binds the actual
  parameters of \<open>self.call(*pos, **kw)\<close>, \<open>self\<close> being bound already. A keyword that
  names a parameter already given (\<open>self\<close>, and \<open>fn\<close>, \<open>key\<close> when given by position)
  is an error, the first such keyword being reported; \<open>fn\<close> and \<open>key\<close> may be given
  by keyword otherwise; further positional arguments go to \<open>args\<close> and the other keywords
  to \<open>kwargs\<close>. The result is the \<open>TypeError\<close> of a failed binding (with the message of
  CPython 3.10 and later), or the parameters with which the caller then runs the body
  (\<open>step\<close>).
\<close>

definition quoted :: "string \<Rightarrow> string" where
  "quoted n = CHR 0x27 # n @ [CHR 0x27]"

fun positional :: "pyval list \<Rightarrow> kwargs \<Rightarrow> pyval option \<times> pyval option \<times> pyval list" where
  "positional [] kw = (map_of kw ''fn'', map_of kw ''key'', [])"
| "positional [f] kw = (Some f, map_of kw ''key'', [])"
| "positional (f # k # rest) kw = (Some f, Some k, rest)"

definition call :: "pyval list \<Rightarrow> kwargs \<Rightarrow> exc + callargs" where
  "call pos kw =
     (case find (\<lambda>p. fst p \<in> set (''self'' # take (length pos) [''fn'', ''key''])) kw of
        Some p \<Rightarrow>
          Inl (TypeError (''SingleFlight.call() got multiple values for argument ''
                          @ quoted (fst p)))
      | None \<Rightarrow>
          (case positional pos kw of
             (Some f, Some k, rest) \<Rightarrow>
               Inr \<lparr>fn = f, key = k, args = rest,
                    kwargs = filter (\<lambda>p. fst p \<noteq> ''fn'' \<and> fst p \<noteq> ''key'') kw\<rparr>
           | (None, Some k, rest) \<Rightarrow>
               Inl (TypeError (''SingleFlight.call() missing 1 required positional argument: ''
                               @ quoted ''fn''))
           | (Some f, None, rest) \<Rightarrow>
               Inl (TypeError (''SingleFlight.call() missing 1 required positional argument: ''
                               @ quoted ''key''))
           | (None, None, rest) \<Rightarrow>
               Inl (TypeError (''SingleFlight.call() missing 2 required positional arguments: ''
                               @ quoted ''fn'' @ '' and '' @ quoted ''key''))))"

text \<open>
  \<open>functools.partial(f, *pargs, **pkw)\<close>: called with \<open>(*as, **kw)\<close> it calls
  \<open>f(*pargs, *as, **{**pkw, **kw})\<close>.
\<close>

definition merge_kw :: "kwargs \<Rightarrow> kwargs \<Rightarrow> kwargs" where
  "merge_kw pkw kw =
     map (\<lambda>p. (fst p, case map_of kw (fst p) of Some v \<Rightarrow> v | None \<Rightarrow> snd p)) pkw
     @ filter (\<lambda>p. fst p \<notin> fst ` set pkw) kw"

definition partial ::
  "(pyval list \<Rightarrow> kwargs \<Rightarrow> 'r) \<Rightarrow> pyval list \<Rightarrow> kwargs \<Rightarrow> pyval list \<Rightarrow> kwargs \<Rightarrow> 'r" where
  "partial f pargs pkw as kw = f (pargs @ as) (merge_kw pkw kw)"

text \<open>Lines 102-103: \<open>wrapper(*args, **kwargs)\<close> returns \<open>partial(self.call, fn, *args, **kwargs)\<close>.\<close>

definition wrapper :: "pyval \<Rightarrow> pyval list \<Rightarrow> kwargs \<Rightarrow> pyval list \<Rightarrow> kwargs \<Rightarrow> exc + callargs" where
  "wrapper f as kw = partial call (f # as) kw"

text \<open>Line 105: \<open>wrap\<close> returns \<open>wrapper()\<close>, the wrapper called with no arguments.\<close>

definition wrap :: "pyval \<Rightarrow> pyval list \<Rightarrow> kwargs \<Rightarrow> exc + callargs" where
  "wrap f = wrapper f [] []"

section \<open>Invariants of the reachable states\<close>

text \<open>The control points at which the thread holds \<open>self.lock\<close>.\<close>

fun holds_lock :: "pc \<Rightarrow> bool" where
  "holds_lock CheckKey = True"
| "holds_lock FRelease = True"
| "holds_lock LCreate = True"
| "holds_lock (LRelease a) = True"
| "holds_lock (LDel a) = True"
| "holds_lock (LExit a) = True"
| "holds_lock p = False"

text \<open>The local variable \<open>cl\<close> of a leader.\<close>

fun cl_of :: "pc \<Rightarrow> addr option" where
  "cl_of (LRelease a) = Some a"
| "cl_of (LInvoke a) = Some a"
| "cl_of (LClearErr a) = Some a"
| "cl_of (LExcRes a e) = Some a"
| "cl_of (LExcErr a e) = Some a"
| "cl_of (LSet a) = Some a"
| "cl_of (LSleep a) = Some a"
| "cl_of (LAcquire a) = Some a"
| "cl_of (LDel a) = Some a"
| "cl_of (LExit a) = Some a"
| "cl_of (LCheckErr a) = Some a"
| "cl_of (LRaise a) = Some a"
| "cl_of (LReturn a) = Some a"
| "cl_of p = None"

text \<open>The control points between the insertion of \<open>cl\<close> into \<open>self.m\<close> and its deletion.\<close>

fun owns :: "pc \<Rightarrow> bool" where
  "owns (LRelease a) = True"
| "owns (LInvoke a) = True"
| "owns (LClearErr a) = True"
| "owns (LExcRes a e) = True"
| "owns (LExcErr a e) = True"
| "owns (LSet a) = True"
| "owns (LSleep a) = True"
| "owns (LAcquire a) = True"
| "owns (LDel a) = True"
| "owns p = False"

text \<open>The control points of a leader before \<open>cl.ev.set()\<close> has run.\<close>

fun pending :: "pc \<Rightarrow> bool" where
  "pending (LRelease a) = True"
| "pending (LInvoke a) = True"
| "pending (LClearErr a) = True"
| "pending (LExcRes a e) = True"
| "pending (LExcErr a e) = True"
| "pending (LSet a) = True"
| "pending p = False"

text \<open>Mutual exclusion: whoever is in a critical section has the lock, and is alone there.\<close>

definition inv_lock :: "state \<Rightarrow> bool" where
  "inv_lock s \<longleftrightarrow>
     (\<forall>t. holds_lock (pcs s t) \<longrightarrow> lock s) \<and>
     (\<forall>t u. holds_lock (pcs s t) \<longrightarrow> holds_lock (pcs s u) \<longrightarrow> t = u)"

text \<open>
  Allocation: every reference held by a leader or by the registry is allocated, unallocated
  cells are blank, and no two leaders hold the same \<open>CallLock\<close>.
\<close>

definition inv_alloc :: "state \<Rightarrow> bool" where
  "inv_alloc s \<longleftrightarrow>
     (\<forall>t a. cl_of (pcs s t) = Some a \<longrightarrow> a < nxt s) \<and>
     (\<forall>k a. m s k = Some a \<longrightarrow> a < nxt s) \<and>
     (\<forall>a. nxt s \<le> a \<longrightarrow> heap s a = CallLock) \<and>
     (\<forall>t u a. cl_of (pcs s t) = Some a \<longrightarrow> cl_of (pcs s u) = Some a \<longrightarrow> t = u)"

text \<open>
  Registry: between insertion and deletion the leader's key maps to its \<open>cl\<close>; a thread
  about to insert has found its key absent; the event of a leader that has not reached
  \<open>cl.ev.set()\<close> is unset.
\<close>

definition inv_reg :: "(tid \<Rightarrow> callargs) \<Rightarrow> state \<Rightarrow> bool" where
  "inv_reg calls s \<longleftrightarrow>
     (\<forall>t. owns (pcs s t) \<longrightarrow> m s (key (calls t)) = cl_of (pcs s t)) \<and>
     (\<forall>t. pcs s t = LCreate \<longrightarrow> m s (key (calls t)) = None) \<and>
     (\<forall>t a. pending (pcs s t) \<longrightarrow> cl_of (pcs s t) = Some a \<longrightarrow> \<not> ev (heap s a))"

definition inv :: "(tid \<Rightarrow> callargs) \<Rightarrow> state \<Rightarrow> bool" where
  "inv calls s \<longleftrightarrow> inv_lock s \<and> inv_alloc s \<and> inv_reg calls s"

text \<open>
  A key is orphaned when the registry maps it to a \<open>CallLock\<close> whose event is unset and
  that no leader holds any more: nobody is left to set the event or to delete the key.
\<close>

definition orphan :: "pyval \<Rightarrow> addr \<Rightarrow> state \<Rightarrow> bool" where
  "orphan k a s \<longleftrightarrow>
     m s k = Some a \<and> \<not> ev (heap s a) \<and> (\<forall>t. cl_of (pcs s t) \<noteq> Some a)"

text \<open>
  What the invocation log says about a thread that has invoked its operation.
  \<open>settled c out\<close>: the record \<open>c\<close> holds what lines 77-81 write for the outcome \<open>out\<close>.
  \<open>delivered r out\<close>: the result \<open>r\<close> of \<open>call\<close> is the outcome \<open>out\<close> of the operation.
  \<open>consistent p h out\<close>: a leader at control point \<open>p\<close> whose invocation did \<open>out\<close> has
  written to its record, so far, what the source writes; it is False at the control
  points that come before the invocation.
\<close>

fun settled :: "calllock \<Rightarrow> outcome \<Rightarrow> bool" where
  "settled c (Returns v) = (res c = v \<and> err c = None)"
| "settled c (Raises e) = (is_Exception e \<and> res c = PNone \<and> err c = Some e)"
| "settled c Hangs = False"

fun delivered :: "result \<Rightarrow> outcome \<Rightarrow> bool" where
  "delivered (Returned v) out = (out = Returns v)"
| "delivered (Raised e) out = (out = Raises e)"

fun consistent :: "pc \<Rightarrow> (addr \<Rightarrow> calllock) \<Rightarrow> outcome \<Rightarrow> bool" where
  "consistent (LClearErr a) h out = (out = Returns (res (h a)))"
| "consistent (LExcRes a e) h out = (out = Raises e \<and> is_Exception e)"
| "consistent (LExcErr a e) h out = (out = Raises e \<and> is_Exception e \<and> res (h a) = PNone)"
| "consistent (LSet a) h out = settled (h a) out"
| "consistent (LSleep a) h out = settled (h a) out"
| "consistent (LAcquire a) h out = settled (h a) out"
| "consistent (LDel a) h out = settled (h a) out"
| "consistent (LExit a) h out = settled (h a) out"
| "consistent (LCheckErr a) h out = settled (h a) out"
| "consistent (LRaise a) h out = (settled (h a) out \<and> err (h a) \<noteq> None)"
| "consistent (LReturn a) h out = (settled (h a) out \<and> err (h a) = None)"
| "consistent Hung h out = (out = Hangs)"
| "consistent (Done r) h out = delivered r out"
| "consistent p h out = False"

text \<open>The control points of a leader after the try statement of lines 76-81.\<close>

fun written :: "pc \<Rightarrow> addr option" where
  "written (LSet a) = Some a"
| "written (LSleep a) = Some a"
| "written (LAcquire a) = Some a"
| "written (LDel a) = Some a"
| "written (LExit a) = Some a"
| "written (LCheckErr a) = Some a"
| "written (LRaise a) = Some a"
| "written (LReturn a) = Some a"
| "written p = None"

text \<open>The control points, short of the end of the call, that come after the invocation.\<close>

fun invoked :: "pc \<Rightarrow> bool" where
  "invoked (LClearErr a) = True"
| "invoked (LExcRes a e) = True"
| "invoked (LExcErr a e) = True"
| "invoked Hung = True"
| "invoked p = (written p \<noteq> None)"

text \<open>
  Invocation log: an entry carries the parameters of its thread's call and is consistent
  with where that thread is; a thread past the invocation has an entry; no thread has two;
  the outcome recorded is what the operation does as the i-th invocation.
\<close>

definition inv_log :: "behaviour \<Rightarrow> (tid \<Rightarrow> callargs) \<Rightarrow> state \<Rightarrow> bool" where
  "inv_log beh calls s \<longleftrightarrow>
     (\<forall>t f as kw out. (t, f, as, kw, out) \<in> set (log s) \<longrightarrow>
        f = fn (calls t) \<and> as = args (calls t) \<and> kw = kwargs (calls t) \<and>
        consistent (pcs s t) (heap s) out) \<and>
     (\<forall>t. invoked (pcs s t) \<longrightarrow> t \<in> fst ` set (log s)) \<and>
     distinct (map fst (log s)) \<and>
     (\<forall>i t f as kw out. i < length (log s) \<longrightarrow> log s ! i = (t, f, as, kw, out) \<longrightarrow>
        out = apply_fn beh f as kw i)"






section \<open>Scenarios\<close>

text \<open>An operation table in which every function object does the same thing always.\<close>

definition const_beh :: "outcome \<Rightarrow> behaviour" where
  "const_beh out = (\<lambda>i as kw n. out)"

text \<open>Every thread calls \<open>call(f, ''k'')\<close> for the same function object \<open>f\<close>.\<close>

definition same_call :: "tid \<Rightarrow> callargs" where
  "same_call = (\<lambda>t. \<lparr>fn = PFunc 0, key = PStr ''k'', args = [], kwargs = []\<rparr>)"

text \<open>Every thread calls \<open>call(f, k)\<close> with the empty string as \<open>k\<close>; with the integer 3.\<close>

definition empty_key_call :: "tid \<Rightarrow> callargs" where
  "empty_key_call = (\<lambda>t. \<lparr>fn = PFunc 0, key = PStr [], args = [], kwargs = []\<rparr>)"

definition int_key_call :: "tid \<Rightarrow> callargs" where
  "int_key_call = (\<lambda>t. \<lparr>fn = PFunc 0, key = PInt 3, args = [], kwargs = []\<rparr>)"

text \<open>An operation that raises the first time it is invoked and returns a counter later.\<close>

definition flaky_beh :: behaviour where
  "flaky_beh = (\<lambda>i as kw n. if n = 0 then Raises (Custom ''Boom'' True True)
                              else Returns (PInt (int n)))"

text \<open>Where the listed threads are at the end of a schedule, and what was invoked.\<close>

definition results :: "tid list \<Rightarrow> state option \<Rightarrow> pc list option" where
  "results ts so = map_option (\<lambda>s. map (pcs s) ts) so"

definition invocations ::
  "state option \<Rightarrow> (tid \<times> pyval \<times> pyval list \<times> kwargs \<times> outcome) list option" where
  "invocations so = map_option log so"

text \<open>
  Thread 0 becomes the leader and stops before line 77; thread 1 finds the key, releases
  the lock and waits on the event (line 66); thread 0 runs to its return, deleting the key
  on the way; thread 1 wakes up and evaluates line 68.
\<close>

definition sched_removed :: "tid list" where
  "sched_removed = [0,0,0,0,0, 1,1,1,1,1, 0,0,0,0,0,0,0,0,0, 1,1]"

text \<open>
  As before, but thread 1 wakes up as soon as the event is set and is then preempted
  before line 68; thread 0 finishes and deletes the key; thread 2 calls with the same key,
  becomes the next leader and stops before line 77; then thread 1 runs lines 68 and 70.
\<close>

definition sched_stale :: "tid list" where
  "sched_stale = [0,0,0,0,0, 1,1,1,1,1, 0,0,0, 1, 0,0,0,0,0,0, 2,2,2,2,2, 1,1]"

text \<open>The same interleaving when the operation raises (the leader takes lines 80-81).\<close>

definition sched_stale_exc :: "tid list" where
  "sched_stale_exc = [0,0,0,0,0, 1,1,1,1,1, 0,0,0,0, 1, 0,0,0,0,0,0, 2,2,2,2,2, 1,1]"

text \<open>An operation that returns how many operations were invoked before it.\<close>

definition counter_beh :: behaviour where
  "counter_beh = (\<lambda>i as kw n. Returns (PInt (int n)))"

text \<open>An operation that returns 42 the first time it is invoked and raises later.\<close>

definition second_raises_beh :: behaviour where
  "second_raises_beh = (\<lambda>i as kw n. if n = 0 then Returns (PInt 42)
                                      else Raises (Custom ''Boom'' True True))"

text \<open>Thread 0 calls \<open>call(f, ''a'', 1, x=2)\<close>, every other thread \<open>call(f, ''b'', 1, x=2)\<close>.\<close>

definition two_keys_call :: "tid \<Rightarrow> callargs" where
  "two_keys_call = (\<lambda>t. \<lparr>fn = PFunc 0, key = (if t = 0 then PStr ''a'' else PStr ''b''),
                          args = [PInt 1], kwargs = [(''x'', PInt 2)]\<rparr>)"

text \<open>
  Thread 0 becomes a leader and stops before line 77; thread 1 takes the lock and is about
  to check the registry (line 61). Then the two threads take turns until both calls are
  over.
\<close>

definition sched_to_check :: "tid list" where
  "sched_to_check = [0,0,0,0,0, 1,1]"

definition sched_interleaved :: "tid list" where
  "sched_interleaved = [1,0,1,0,1,0,1,0,1,0,1,0,1,0,1,0,1,0,1,1,1]"

text \<open>
  Thread 0 runs its whole call, as a leader whose operation raises; thread 1 takes the lock
  and is about to check the registry. Then thread 1 runs to the end of its call while
  thread 2 arrives and attaches to it.
\<close>

definition sched_first_fails :: "tid list" where
  "sched_first_fails = [0,0,0,0,0,0,0,0,0,0,0,0,0,0,0, 1,1]"

definition sched_second_leads :: "tid list" where
  "sched_second_leads = [1,1,1,2,1,2,1,2,1,2,1,1,1,1,1,1]"

text \<open>The record at an address at the end of a schedule.\<close>

definition record_at :: "addr \<Rightarrow> state option \<Rightarrow> calllock option" where
  "record_at a so = map_option (\<lambda>s. heap s a) so"

text \<open>
  As \<open>sched_stale\<close>, but the next leader, thread 2, goes on: its operation raises, it runs
  line 80 and stops before line 81; then thread 1 runs lines 68 and 70.
\<close>

definition sched_half_written :: "tid list" where
  "sched_half_written = [0,0,0,0,0, 1,1,1,1,1, 0,0,0, 1, 0,0,0,0,0,0, 2,2,2,2,2, 2,2, 1,1]"

section \<open>What one action changes\<close>

lemma step_pcs_other:
  "step beh calls t s = Some s' \<Longrightarrow> u \<noteq> t \<Longrightarrow> pcs s' u = pcs s u"
  unfolding step_def
  by (cases "pcs s t")
     (auto simp: goto_def Let_def split: if_splits option.splits outcome.splits)

lemma step_cl:
  "step beh calls t s = Some s' \<Longrightarrow> cl_of (pcs s' t) = Some a \<Longrightarrow>
     cl_of (pcs s t) = Some a \<or> (pcs s t = LCreate \<and> a = nxt s)"
  unfolding step_def
  by (cases "pcs s t")
     (auto simp: goto_def Let_def split: if_splits option.splits outcome.splits)

lemma step_nxt:
  "step beh calls t s = Some s' \<Longrightarrow>
     nxt s' = (if pcs s t = LCreate then Suc (nxt s) else nxt s)"
  unfolding step_def
  by (cases "pcs s t")
     (auto simp: goto_def Let_def split: if_splits option.splits outcome.splits)

lemma step_heap:
  "step beh calls t s = Some s' \<Longrightarrow> heap s' a \<noteq> heap s a \<Longrightarrow>
     (pending (pcs s t) \<and> cl_of (pcs s t) = Some a) \<or> (pcs s t = LCreate \<and> a = nxt s)"
  unfolding step_def
  by (cases "pcs s t")
     (auto simp: goto_def Let_def split: if_splits option.splits outcome.splits)

lemma step_heap_create:
  "step beh calls t s = Some s' \<Longrightarrow> pcs s t = LCreate \<Longrightarrow> heap s' (nxt s) = CallLock"
  unfolding step_def by (auto simp: goto_def)

lemma step_m:
  "step beh calls t s = Some s' \<Longrightarrow> m s' k \<noteq> m s k \<Longrightarrow>
     k = key (calls t) \<and>
     ((pcs s t = LCreate \<and> m s' k = Some (nxt s)) \<or> ((\<exists>a. pcs s t = LDel a) \<and> m s' k = None))"
  unfolding step_def
  by (cases "pcs s t")
     (auto simp: goto_def Let_def split: if_splits option.splits outcome.splits)

lemma inv_lock_step:
  assumes "inv_lock s" and st: "step beh calls t s = Some s'"
  shows "inv_lock s'"
proof -
  have a: "holds_lock (pcs s x) \<longrightarrow> lock s \<and> (holds_lock (pcs s y) \<longrightarrow> x = y)" for x y
    using assms(1) unfolding inv_lock_def by blast
  have "lock s' \<and> (holds_lock (pcs s' v) \<longrightarrow> u = v)" if h: "holds_lock (pcs s' u)" for u v
    using st h a[of t t] a[of t u] a[of u t] a[of u v] a[of t v] a[of v t] a[of v u]
    unfolding step_def
    by (cases "pcs s t")
       (auto simp: goto_def Let_def split: if_splits option.splits outcome.splits)
  then show ?thesis by (simp add: inv_lock_def)
qed

lemma inv_alloc_step:
  assumes "inv_alloc s" and st: "step beh calls t s = Some s'"
  shows "inv_alloc s'"
proof -
  have a1: "cl_of (pcs s x) = Some a \<Longrightarrow> a < nxt s" for x a
    using assms(1) unfolding inv_alloc_def by blast
  have a2: "m s k = Some a \<Longrightarrow> a < nxt s" for k a
    using assms(1) unfolding inv_alloc_def by blast
  have a3: "nxt s \<le> a \<Longrightarrow> heap s a = CallLock" for a
    using assms(1) unfolding inv_alloc_def by blast
  have a4: "cl_of (pcs s x) = Some a \<Longrightarrow> cl_of (pcs s y) = Some a \<Longrightarrow> x = y" for x y a
    using assms(1) unfolding inv_alloc_def by blast
  have n: "nxt s \<le> nxt s'" "pcs s t = LCreate \<Longrightarrow> nxt s' = Suc (nxt s)"
    using step_nxt[OF st] by auto
  have c: "cl_of (pcs s u) = Some a \<or> (u = t \<and> pcs s t = LCreate \<and> a = nxt s)"
    if h: "cl_of (pcs s' u) = Some a" for u a
    using step_cl[OF st, of a] step_pcs_other[OF st, of u] h by (cases "u = t") auto
  have b1: "a < nxt s'" if h: "cl_of (pcs s' u) = Some a" for u a
    using c[OF h] a1[of u a] n by auto
  have b2: "a < nxt s'" if h: "m s' k = Some a" for k a
    using step_m[OF st, of k] a2[of k a] h n by (cases "m s' k = m s k") auto
  have b3: "heap s' a = CallLock" if h: "nxt s' \<le> a" for a
    using step_heap[OF st, of a] step_heap_create[OF st] a3[of a] a1[of t a] h n
    by (cases "heap s' a = heap s a") auto
  have b4: "u = v" if h: "cl_of (pcs s' u) = Some a" "cl_of (pcs s' v) = Some a" for u v a
    using c[OF h(1)] c[OF h(2)] a4[of u a v] a1[of u a] a1[of v a] by auto
  show ?thesis unfolding inv_alloc_def using b1 b2 b3 b4 by blast
qed


lemma step_ev:
  "step beh calls t s = Some s' \<Longrightarrow> ev (heap s' a) \<Longrightarrow> \<not> ev (heap s a) \<Longrightarrow> pcs s t = LSet a"
  unfolding step_def
  by (cases "pcs s t")
     (auto simp: goto_def Let_def CallLock_def split: if_splits option.splits outcome.splits)

lemma step_from_LSet:
  "step beh calls t s = Some s' \<Longrightarrow> pcs s t = LSet a \<Longrightarrow> pcs s' t = LSleep a"
  unfolding step_def by (auto simp: goto_def)

lemma step_from_LCreate:
  "step beh calls t s = Some s' \<Longrightarrow> pcs s t = LCreate \<Longrightarrow>
     pcs s' t = LRelease (nxt s) \<and> m s' = (m s)(key (calls t) \<mapsto> nxt s)"
  unfolding step_def by (auto simp: goto_def)

lemma step_to_LCreate:
  "step beh calls t s = Some s' \<Longrightarrow> pcs s' t = LCreate \<Longrightarrow>
     pcs s t = CheckKey \<and> m s (key (calls t)) = None \<and> m s' = m s"
  unfolding step_def
  by (cases "pcs s t")
     (auto simp: goto_def Let_def split: if_splits option.splits outcome.splits)

lemma step_owns:
  "step beh calls t s = Some s' \<Longrightarrow> owns (pcs s' t) \<Longrightarrow>
     pcs s t = LCreate \<or> (owns (pcs s t) \<and> m s' = m s \<and> cl_of (pcs s' t) = cl_of (pcs s t))"
  unfolding step_def
  by (cases "pcs s t")
     (auto simp: goto_def Let_def split: if_splits option.splits outcome.splits)

lemma step_pending:
  "step beh calls t s = Some s' \<Longrightarrow> pending (pcs s' t) \<Longrightarrow>
     pcs s t = LCreate \<or> (pending (pcs s t) \<and> cl_of (pcs s' t) = cl_of (pcs s t))"
  unfolding step_def
  by (cases "pcs s t")
     (auto simp: goto_def Let_def split: if_splits option.splits outcome.splits)

lemma inv_reg_step:
  assumes "inv_reg calls s" and il: "inv_lock s" and ia: "inv_alloc s"
    and st: "step beh calls t s = Some s'"
  shows "inv_reg calls s'"
proof -
  have r1: "owns (pcs s x) \<Longrightarrow> m s (key (calls x)) = cl_of (pcs s x)" for x
    using assms(1) unfolding inv_reg_def by blast
  have r2: "pcs s x = LCreate \<Longrightarrow> m s (key (calls x)) = None" for x
    using assms(1) unfolding inv_reg_def by blast
  have r3: "pending (pcs s x) \<Longrightarrow> cl_of (pcs s x) = Some a \<Longrightarrow> \<not> ev (heap s a)" for x a
    using assms(1) unfolding inv_reg_def by blast
  have l: "holds_lock (pcs s x) \<Longrightarrow> holds_lock (pcs s y) \<Longrightarrow> x = y" for x y
    using il unfolding inv_lock_def by blast
  have a1: "cl_of (pcs s x) = Some a \<Longrightarrow> a < nxt s" for x a
    using ia unfolding inv_alloc_def by blast
  have a3: "nxt s \<le> a \<Longrightarrow> heap s a = CallLock" for a
    using ia unfolding inv_alloc_def by blast
  have a4: "cl_of (pcs s x) = Some a \<Longrightarrow> cl_of (pcs s y) = Some a \<Longrightarrow> x = y" for x y a
    using ia unfolding inv_alloc_def by blast
  have b1: "m s' (key (calls u)) = cl_of (pcs s' u)" if h: "owns (pcs s' u)" for u
  proof (cases "u = t")
    case True
    then show ?thesis
      using step_owns[OF st] step_from_LCreate[OF st] h r1[of t] by auto
  next
    case False
    then have p: "pcs s' u = pcs s u" using step_pcs_other[OF st] by simp
    have o: "owns (pcs s u)" using h p by simp
    obtain a where a: "cl_of (pcs s u) = Some a" using o by (cases "pcs s u") auto
    show ?thesis
    proof (cases "m s' (key (calls u)) = m s (key (calls u))")
      case True
      then show ?thesis using r1[OF o] p by simp
    next
      case False
      from step_m[OF st False] show ?thesis
      proof (elim conjE disjE exE)
        assume "key (calls u) = key (calls t)" "pcs s t = LCreate"
        then show ?thesis using r2[of t] r1[OF o] a by simp
      next
        fix b assume k: "key (calls u) = key (calls t)" and d: "pcs s t = LDel b"
        have "m s (key (calls t)) = Some b" using r1[of t] d by simp
        then have "a = b" using r1[OF o] a k by simp
        then have "u = t" using a4[of u a t] a d by simp
        then show ?thesis using \<open>u \<noteq> t\<close> by simp
      qed
    qed
  qed
  have b2: "m s' (key (calls u)) = None" if h: "pcs s' u = LCreate" for u
  proof (cases "u = t")
    case True
    then show ?thesis using step_to_LCreate[OF st] h by auto
  next
    case False
    then have p: "pcs s u = LCreate" using step_pcs_other[OF st] h by simp
    have "m s' (key (calls u)) = m s (key (calls u))"
    proof (rule ccontr)
      assume "m s' (key (calls u)) \<noteq> m s (key (calls u))"
      from step_m[OF st this] have "holds_lock (pcs s t)" by auto
      then show False using l[of t u] p False by simp
    qed
    then show ?thesis using r2[OF p] by simp
  qed
  have b3: "\<not> ev (heap s' a)" if h: "pending (pcs s' u)" "cl_of (pcs s' u) = Some a" for u a
  proof
    assume e: "ev (heap s' a)"
    show False
    proof (cases "u = t")
      case True
      from step_pending[OF st] h(1) True
      consider "pcs s t = LCreate" | "pending (pcs s t)" "cl_of (pcs s' t) = cl_of (pcs s t)"
        by auto
      then show False
      proof cases
        case 1
        then show False
          using step_from_LCreate[OF st] step_heap_create[OF st] h(2) True e
          by (auto simp: CallLock_def)
      next
        case 2
        then have c: "cl_of (pcs s t) = Some a" using h(2) True by simp
        have "\<not> ev (heap s a)" using r3[OF 2(1) c] .
        then have "pcs s t = LSet a" using step_ev[OF st e] by simp
        then show False using step_from_LSet[OF st] h(1) True by simp
      qed
    next
      case False
      then have p: "pcs s' u = pcs s u" using step_pcs_other[OF st] by simp
      have "\<not> ev (heap s a)" using r3[of u a] h p by simp
      then have "pcs s t = LSet a" using step_ev[OF st e] by simp
      then have "u = t" using a4[of u a t] h(2) p by simp
      then show False using False by simp
    qed
  qed
  show ?thesis unfolding inv_reg_def using b1 b2 b3 by blast
qed

lemma inv_init: "inv calls init"
  by (simp add: inv_def inv_lock_def inv_alloc_def inv_reg_def init_def)

lemma inv_step: "inv calls s \<Longrightarrow> step beh calls t s = Some s' \<Longrightarrow> inv calls s'"
  unfolding inv_def using inv_lock_step inv_alloc_step inv_reg_step by blast

lemma inv_exec: "inv calls s \<Longrightarrow> exec beh calls sched s = Some s' \<Longrightarrow> inv calls s'"
proof (induction sched arbitrary: s)
  case Nil
  then show ?case by simp
next
  case (Cons t ts)
  then show ?case
    by (cases "step beh calls t s") (auto dest: inv_step)
qed

text \<open>While a key is in flight it has one leader: no two callers own the same key.\<close>

lemma one_leader_per_key:
  assumes "exec beh calls sched init = Some s"
    and "owns (pcs s t)" and "owns (pcs s u)" and "key (calls t) = key (calls u)"
  shows "t = u"
proof -
  have i: "inv calls s" using inv_exec[OF inv_init assms(1)] .
  obtain a where a: "cl_of (pcs s t) = Some a" using assms(2) by (cases "pcs s t") auto
  have "m s (key (calls t)) = Some a" "m s (key (calls u)) = cl_of (pcs s u)"
    using i assms(2,3) a unfolding inv_def inv_reg_def by metis+
  then have "cl_of (pcs s u) = Some a" using assms(4) by simp
  then show ?thesis using i a unfolding inv_def inv_alloc_def by blast
qed

section \<open>Argument validation\<close>

text \<open>
  C3, as the specification states it, fails: the empty string is a \<open>str\<close>, so a call
  with the empty key and a callable passes both checks and goes on to take the lock.
\<close>

theorem empty_key_accepted:
  "validate (PFunc 0) (PStr []) = None \<and>
   step (const_beh (Returns PNone)) empty_key_call 0 init = Some (goto 0 Acquire init)"
  by (simp add: step_def validate_def init_def empty_key_call_def)

text \<open>
  C3, amended: a caller about to run the checks of lines 53-56 can always move (it does not
  wait for the lock or for anything else). If the key is not a \<open>str\<close> or the operation is
  not callable, its call is over with a \<open>TypeError\<close>, and the lock, the registry, the
  \<open>CallLock\<close> objects, the invocation log and every other caller are as before. If the key
  is a \<open>str\<close> (the empty one included) and the operation is callable, no error is raised
  and the caller goes on to acquire the lock.
\<close>

theorem validate_first:
  assumes "pcs s t = Validate"
  shows "\<exists>s'. step beh calls t s = Some s' \<and>
           lock s' = lock s \<and> m s' = m s \<and> heap s' = heap s \<and> nxt s' = nxt s \<and>
           log s' = log s \<and> (\<forall>u. u \<noteq> t \<longrightarrow> pcs s' u = pcs s u) \<and>
           (if is_str (key (calls t)) \<and> callable (fn (calls t))
            then pcs s' t = Acquire
            else \<exists>msg. pcs s' t = Done (Raised (TypeError msg)))"
  using assms by (simp add: step_def validate_def goto_def)

theorem validate_first_witness:
  "pcs (the (step (const_beh (Returns PNone)) int_key_call 0 init)) 0
     = Done (Raised (TypeError ''Key should be a str'')) \<and>
   m (the (step (const_beh (Returns PNone)) int_key_call 0 init)) = m init \<and>
   lock (the (step (const_beh (Returns PNone)) int_key_call 0 init)) = lock init"
proof -
  have h: "pcs init 0 = Validate" by (simp add: init_def)
  from validate_first[OF h, of "const_beh (Returns PNone)" int_key_call]
  obtain s' where s': "step (const_beh (Returns PNone)) int_key_call 0 init = Some s'"
    and f: "lock s' = lock init" "m s' = m init"
    and r: "if is_str (key (int_key_call 0)) \<and> callable (fn (int_key_call 0))
            then pcs s' 0 = Acquire
            else \<exists>msg. pcs s' 0 = Done (Raised (TypeError msg))"
    by blast
  have "pcs s' 0 = Done (Raised (TypeError ''Key should be a str''))"
    using s' by (auto simp: step_def validate_def int_key_call_def goto_def init_def)
  then show ?thesis using s' f by simp
qed

section \<open>The convenience wrapper\<close>

text \<open>
  C9: the callable returned by \<open>wrap(fn)\<close>, invoked with a key and further positional and
  keyword arguments, makes exactly the call \<open>call(fn, key, *args, **kwargs)\<close>: the same
  bound parameters (or the same binding error), hence the same run of \<open>call\<close>.
\<close>

theorem wrap_forwards:
  "wrap f (k # as) kw = call (f # k # as) kw"
  by (simp add: wrap_def wrapper_def partial_def merge_kw_def)

lemmas scen = same_call_def const_beh_def init_def step_def goto_def validate_def CallLock_def
  results_def invocations_def counter_beh_def two_keys_call_def sched_to_check_def
  sched_interleaved_def sched_first_fails_def sched_second_leads_def flaky_beh_def
  second_raises_beh_def record_at_def sched_half_written_def

section \<open>The record is fixed once its event is set\<close>

lemma record_fixed_step:
  assumes i: "inv calls s" and e: "ev (heap s a)" and st: "step beh calls t s = Some s'"
  shows "heap s' a = heap s a"
proof (rule ccontr)
  assume "heap s' a \<noteq> heap s a"
  from step_heap[OF st this] show False
  proof (elim disjE conjE)
    assume "pending (pcs s t)" "cl_of (pcs s t) = Some a"
    then show False using i e unfolding inv_def inv_reg_def by blast
  next
    assume "pcs s t = LCreate" "a = nxt s"
    then have "heap s a = CallLock" using i unfolding inv_def inv_alloc_def by simp
    then show False using e by (simp add: CallLock_def)
  qed
qed

lemma record_fixed_exec:
  "inv calls s \<Longrightarrow> ev (heap s a) \<Longrightarrow> exec beh calls sched s = Some s' \<Longrightarrow> heap s' a = heap s a"
proof (induction sched arbitrary: s)
  case Nil
  then show ?case by simp
next
  case (Cons t ts)
  then obtain s1 where s1: "step beh calls t s = Some s1" "exec beh calls ts s1 = Some s'"
    by (auto split: option.splits)
  have h: "heap s1 a = heap s a" using record_fixed_step[OF Cons.prems(1,2) s1(1)] .
  have "heap s' a = heap s1 a"
    using Cons.IH[OF inv_step[OF Cons.prems(1) s1(1)] _ s1(2)] h Cons.prems(2) by simp
  then show ?case using h by simp
qed

text \<open>
  In every state reachable from the initial one, a \<open>CallLock\<close> whose event is set is
  never written again, whatever the callers do afterwards.
\<close>

lemma record_fixed_after_set:
  assumes "exec beh calls sched init = Some s"
    and "ev (heap s a)"
    and "exec beh calls sched' s = Some s'"
  shows "heap s' a = heap s a"
  using record_fixed_exec[OF inv_exec[OF inv_init assms(1)] assms(2,3)] .

section \<open>Followers read through the registry\<close>

text \<open>
  C1 on the code: two callers with the same key, one execution in flight, the operation
  invoked once and returning 42. The leader returns 42; the follower, scheduled after the
  leader has deleted the key, raises \<open>KeyError\<close> at line 68 instead of returning 42.
\<close>

theorem follower_keyerror:
  "results [0, 1] (exec (const_beh (Returns (PInt 42))) same_call sched_removed init)
     = Some [Done (Returned (PInt 42)), Done (Raised (KeyError (PStr ''k'')))] \<and>
   invocations (exec (const_beh (Returns (PInt 42))) same_call sched_removed init)
     = Some [(0, PFunc 0, [], [], Returns (PInt 42))]"
  by (simp add: scen sched_removed_def)

text \<open>
  C2 on the code: the follower attached to the record of thread 0, whose operation returned
  42, but lines 68 and 70 look the key up again and find the record of the next leader,
  thread 2, which has not invoked the operation yet: the follower returns that record's
  blank result, None.
\<close>

theorem follower_reads_other_record:
  "results [0, 1, 2] (exec (const_beh (Returns (PInt 42))) same_call sched_stale init)
     = Some [Done (Returned (PInt 42)), Done (Returned PNone), LInvoke 1] \<and>
   invocations (exec (const_beh (Returns (PInt 42))) same_call sched_stale init)
     = Some [(0, PFunc 0, [], [], Returns (PInt 42))]"
  by (simp add: scen sched_stale_def)

text \<open>
  C4 on the code: the only execution raises \<open>Boom\<close>, which the leader re-raises; the
  attached follower reads the blank record of the next leader and returns None, a success.
\<close>

theorem follower_success_on_failure:
  "results [0, 1, 2]
     (exec (const_beh (Raises (Custom ''Boom'' True True))) same_call sched_stale_exc init)
     = Some [Done (Raised (Custom ''Boom'' True True)), Done (Returned PNone), LInvoke 1] \<and>
   invocations
     (exec (const_beh (Raises (Custom ''Boom'' True True))) same_call sched_stale_exc init)
     = Some [(0, PFunc 0, [], [], Raises (Custom ''Boom'' True True))]"
  by (simp add: scen sched_stale_exc_def)

text \<open>
  C8 on the code: a record is written before its event is set and never after, but a
  waiter does not read the record it waited on. The follower waited for the event of
  thread 0's record (result 42); lines 68 and 70 read the record of the next leader,
  thread 2, whose event is unset and of which line 80 has run and line 81 has not: the
  follower finds no error there and returns None, while that execution raised \<open>Boom\<close>.
\<close>

theorem follower_reads_unset_record:
  "results [0, 1, 2] (exec second_raises_beh same_call sched_half_written init)
     = Some [Done (Returned (PInt 42)), Done (Returned PNone),
             LExcErr 1 (Custom ''Boom'' True True)] \<and>
   record_at 1 (exec second_raises_beh same_call sched_half_written init)
     = Some \<lparr>ev = False, res = PNone, err = None\<rparr> \<and>
   invocations (exec second_raises_beh same_call sched_half_written init)
     = Some [(0, PFunc 0, [], [], Returns (PInt 42)),
             (2, PFunc 0, [], [], Raises (Custom ''Boom'' True True))]"
  by (simp add: scen)

section \<open>An exception that is not an \<open>Exception\<close>\<close>

lemma step_from_Done: "pcs s t = Done r \<Longrightarrow> step beh calls t s = None"
  by (simp add: step_def)

lemma done_stable_step:
  "pcs s u = Done r \<Longrightarrow> step beh calls t s = Some s' \<Longrightarrow> pcs s' u = Done r"
  using step_pcs_other[of beh calls t s s' u] step_from_Done[of s u r beh calls]
  by (cases "u = t") auto

lemma done_stable_exec:
  "pcs s u = Done r \<Longrightarrow> exec beh calls sched s = Some s' \<Longrightarrow> pcs s' u = Done r"
proof (induction sched arbitrary: s)
  case Nil
  then show ?case by simp
next
  case (Cons t ts)
  then show ?case
    by (cases "step beh calls t s") (auto dest: done_stable_step)
qed

lemma orphan_step:
  assumes i: "inv calls s" and o: "orphan k a s" and st: "step beh calls t s = Some s'"
  shows "orphan k a s'"
proof -
  have mk: "m s k = Some a" and ne: "\<not> ev (heap s a)" and nc: "cl_of (pcs s u) \<noteq> Some a" for u
    using o unfolding orphan_def by auto
  have r1: "owns (pcs s x) \<Longrightarrow> m s (key (calls x)) = cl_of (pcs s x)" for x
    using i unfolding inv_def inv_reg_def by blast
  have r2: "pcs s x = LCreate \<Longrightarrow> m s (key (calls x)) = None" for x
    using i unfolding inv_def inv_reg_def by blast
  have lt: "a < nxt s" using i mk unfolding inv_def inv_alloc_def by blast
  have m': "m s' k = Some a"
  proof -
    have "m s' k = m s k"
    proof (rule ccontr)
      assume "m s' k \<noteq> m s k"
      from step_m[OF st this] show False
      proof (elim conjE disjE exE)
        assume "k = key (calls t)" "pcs s t = LCreate"
        then show False using r2[of t] mk by simp
      next
        fix b assume "k = key (calls t)" "pcs s t = LDel b"
        then show False using r1[of t] mk nc[of t] by simp
      qed
    qed
    then show ?thesis using mk by simp
  qed
  have e': "\<not> ev (heap s' a)"
  proof
    assume "ev (heap s' a)"
    from step_ev[OF st this ne] show False using nc[of t] by simp
  qed
  have c': "cl_of (pcs s' u) \<noteq> Some a" for u
  proof
    assume h: "cl_of (pcs s' u) = Some a"
    show False
    proof (cases "u = t")
      case True
      then show False using step_cl[OF st, of a] h nc[of t] lt by auto
    next
      case False
      then show False using step_pcs_other[OF st, of u] h nc[of u] by simp
    qed
  qed
  show ?thesis unfolding orphan_def using m' e' c' by blast
qed

lemma orphan_exec:
  "inv calls s \<Longrightarrow> orphan k a s \<Longrightarrow> exec beh calls sched s = Some s' \<Longrightarrow> orphan k a s'"
proof (induction sched arbitrary: s)
  case Nil
  then show ?case by simp
next
  case (Cons t ts)
  then obtain s1 where s1: "step beh calls t s = Some s1" "exec beh calls ts s1 = Some s'"
    by (auto split: option.splits)
  show ?case
    using Cons.IH[OF inv_step[OF Cons.prems(1) s1(1)] orphan_step[OF Cons.prems(1,2) s1(1)] s1(2)] .
qed

text \<open>
  C10: let a leader, in a reachable state, be about to invoke an operation that raises an
  exception that is not an instance of \<open>Exception\<close>. After the invocation, and whatever
  the callers do from then on: the leader's call is over with that exception; the key is
  still in the registry, mapped to the leader's record, whose event is unset; every caller
  waiting on that event cannot move; and every caller with that key that checks the
  registry takes the follower path and then waits on that same event.
\<close>

theorem base_exception_blocks_key:
  assumes reach: "exec beh calls sched init = Some s"
    and pc: "pcs s t = LInvoke a"
    and out: "apply_fn beh (fn (calls t)) (args (calls t)) (kwargs (calls t)) (length (log s))
              = Raises e"
    and base: "\<not> is_Exception e"
    and cont: "exec beh calls (t # sched') s = Some s'"
  shows "pcs s' t = Done (Raised e) \<and> m s' (key (calls t)) = Some a \<and> \<not> ev (heap s' a) \<and>
         (\<forall>u. pcs s' u = FWait a \<longrightarrow> step beh calls u s' = None) \<and>
         (\<forall>u. key (calls u) = key (calls t) \<longrightarrow>
            (pcs s' u = CheckKey \<longrightarrow> step beh calls u s' = Some (goto u FRelease s')) \<and>
            (pcs s' u = FLookup \<longrightarrow> step beh calls u s' = Some (goto u (FWait a) s')))"
proof -
  have i: "inv calls s" using inv_exec[OF inv_init reach] .
  obtain s1 where s1: "step beh calls t s = Some s1" "exec beh calls sched' s1 = Some s'"
    using cont by (auto split: option.splits)
  have s1eq: "s1 = goto t (Done (Raised e))
                 (s\<lparr>log := log s @ [(t, fn (calls t), args (calls t), kwargs (calls t), Raises e)]\<rparr>)"
    using s1(1) pc out base by (simp add: step_def)
  have i1: "inv calls s1" using inv_step[OF i s1(1)] .
  have pp: "owns (pcs s t)" "pending (pcs s t)" "cl_of (pcs s t) = Some a"
    using pc by simp_all
  have mk: "m s (key (calls t)) = Some a"
    using i pp(1,3) unfolding inv_def inv_reg_def by metis
  have ne: "\<not> ev (heap s a)"
    using i pp(2,3) unfolding inv_def inv_reg_def by blast
  have nc: "cl_of (pcs s u) \<noteq> Some a" if "u \<noteq> t" for u
    using i pp(3) that unfolding inv_def inv_alloc_def by blast
  have o1: "orphan (key (calls t)) a s1"
    unfolding orphan_def s1eq using mk ne nc by (auto simp: goto_def)
  have o: "orphan (key (calls t)) a s'" using orphan_exec[OF i1 o1 s1(2)] .
  have d: "pcs s' t = Done (Raised e)"
    using done_stable_exec[OF _ s1(2), of t "Raised e"] s1eq by (simp add: goto_def)
  show ?thesis using o d unfolding orphan_def by (auto simp: step_def)
qed

theorem base_exception_blocks_key_witness:
  "pcs (the (exec (const_beh (Raises (Custom ''KeyboardInterrupt'' False True))) same_call
              ([0,0,0,0,0] @ 0 # [1,1,1,1,1]) init)) 0
     = Done (Raised (Custom ''KeyboardInterrupt'' False True)) \<and>
   pcs (the (exec (const_beh (Raises (Custom ''KeyboardInterrupt'' False True))) same_call
              ([0,0,0,0,0] @ 0 # [1,1,1,1,1]) init)) 1 = FWait 0 \<and>
   step (const_beh (Raises (Custom ''KeyboardInterrupt'' False True))) same_call 1
     (the (exec (const_beh (Raises (Custom ''KeyboardInterrupt'' False True))) same_call
              ([0,0,0,0,0] @ 0 # [1,1,1,1,1]) init)) = None"
proof -
  let ?e = "Custom ''KeyboardInterrupt'' False True"
  let ?B = "const_beh (Raises ?e)"
  let ?s = "the (exec ?B same_call [0,0,0,0,0] init)"
  let ?s' = "the (exec ?B same_call (0 # [1,1,1,1,1]) ?s)"
  have h1: "exec ?B same_call [0,0,0,0,0] init = Some ?s" by (simp add: scen)
  have h2: "pcs ?s 0 = LInvoke 0" by (simp add: scen)
  have h3: "apply_fn ?B (fn (same_call 0)) (args (same_call 0)) (kwargs (same_call 0))
              (length (log ?s)) = Raises ?e" by (simp add: scen)
  have h4: "\<not> is_Exception ?e" by simp
  have h5: "exec ?B same_call (0 # [1,1,1,1,1]) ?s = Some ?s'" by (simp add: scen)
  have h6: "pcs ?s' 1 = FWait 0" by (simp add: scen)
  have eq: "the (exec ?B same_call ([0,0,0,0,0] @ 0 # [1,1,1,1,1]) init) = ?s'"
    by (simp add: scen)
  show ?thesis using base_exception_blocks_key[OF h1 h2 h3 h4 h5] h6 unfolding eq by blast
qed

section \<open>What the leader has written\<close>

lemma step_log:
  "step beh calls t s = Some s' \<Longrightarrow>
     (log s' = log s \<and> (\<forall>a. pcs s t \<noteq> LInvoke a)) \<or>
     (\<exists>a. pcs s t = LInvoke a \<and>
        log s' = log s @ [(t, fn (calls t), args (calls t), kwargs (calls t),
          apply_fn beh (fn (calls t)) (args (calls t)) (kwargs (calls t)) (length (log s)))])"
  unfolding step_def
  by (cases "pcs s t")
     (auto simp: goto_def Let_def split: if_splits option.splits outcome.splits)

lemma step_invoke:
  "step beh calls t s = Some s' \<Longrightarrow> pcs s t = LInvoke a \<Longrightarrow>
     consistent (pcs s' t) (heap s')
       (apply_fn beh (fn (calls t)) (args (calls t)) (kwargs (calls t)) (length (log s)))"
  unfolding step_def
  by (auto simp: goto_def Let_def split: if_splits option.splits outcome.splits)

lemma step_consistent:
  "step beh calls t s = Some s' \<Longrightarrow> consistent (pcs s t) (heap s) out \<Longrightarrow>
   (owns (pcs s t) \<longrightarrow> m s (key (calls t)) = cl_of (pcs s t)) \<Longrightarrow>
   (holds_lock (pcs s t) \<longrightarrow> lock s) \<Longrightarrow>
     consistent (pcs s' t) (heap s') out"
  unfolding step_def
  by (cases "pcs s t"; cases out)
     (auto simp: goto_def Let_def split: if_splits option.splits)

lemma step_invoked:
  "step beh calls t s = Some s' \<Longrightarrow> invoked (pcs s' t) \<Longrightarrow>
     invoked (pcs s t) \<or> (\<exists>a. pcs s t = LInvoke a)"
  unfolding step_def
  by (cases "pcs s t")
     (auto simp: goto_def Let_def split: if_splits option.splits outcome.splits)

lemma consistent_heap:
  "(\<And>a. cl_of p = Some a \<Longrightarrow> h' a = h a) \<Longrightarrow> consistent p h' out = consistent p h out"
  by (cases p) auto

lemma inv_log_step:
  assumes il: "inv_log beh calls s" and i: "inv calls s" and st: "step beh calls t s = Some s'"
  shows "inv_log beh calls s'"
proof -
  let ?new = "(t, fn (calls t), args (calls t), kwargs (calls t),
     apply_fn beh (fn (calls t)) (args (calls t)) (kwargs (calls t)) (length (log s)))"
  have g1: "f = fn (calls u) \<and> as = args (calls u) \<and> kw = kwargs (calls u) \<and>
            consistent (pcs s u) (heap s) out"
    if "(u, f, as, kw, out) \<in> set (log s)" for u f as kw out
    using il that unfolding inv_log_def by blast
  have g2: "u \<in> fst ` set (log s)" if "invoked (pcs s u)" for u
    using il that unfolding inv_log_def by blast
  have g3: "distinct (map fst (log s))" using il unfolding inv_log_def by blast
  have g4: "out = apply_fn beh f as kw j"
    if "j < length (log s)" "log s ! j = (u, f, as, kw, out)" for j u f as kw out
    using il that unfolding inv_log_def by blast
  have own: "owns (pcs s t) \<longrightarrow> m s (key (calls t)) = cl_of (pcs s t)"
    using i unfolding inv_def inv_reg_def by blast
  have lck: "holds_lock (pcs s t) \<longrightarrow> lock s"
    using i unfolding inv_def inv_lock_def by blast
  have a1: "cl_of (pcs s x) = Some a \<Longrightarrow> a < nxt s" for x a
    using i unfolding inv_def inv_alloc_def by blast
  have a4: "cl_of (pcs s x) = Some a \<Longrightarrow> cl_of (pcs s y) = Some a \<Longrightarrow> x = y" for x y a
    using i unfolding inv_def inv_alloc_def by blast
  have notin: "t \<notin> fst ` set (log s)" if "pcs s t = LInvoke a" for a
  proof
    assume "t \<in> fst ` set (log s)"
    then obtain f as kw out where "(t, f, as, kw, out) \<in> set (log s)" by force
    from g1[OF this] that show False by simp
  qed
  from step_log[OF st]
  consider (same) "log s' = log s" "\<forall>a. pcs s t \<noteq> LInvoke a"
    | (app) a where "pcs s t = LInvoke a" "log s' = log s @ [?new]"
    by blast
  note cases_log = this
  have old: "consistent (pcs s' u) (heap s') out"
    if x: "(u, f, as, kw, out) \<in> set (log s)" for u f as kw out
  proof (cases "u = t")
    case True
    then show ?thesis using step_consistent[OF st _ own lck, of out] g1[OF x] by simp
  next
    case False
    have p: "pcs s' u = pcs s u" using step_pcs_other[OF st False] .
    have "heap s' a = heap s a" if c: "cl_of (pcs s u) = Some a" for a
    proof (rule ccontr)
      assume "heap s' a \<noteq> heap s a"
      from step_heap[OF st this] show False
        using a4[OF c, of t] a1[OF c] False by auto
    qed
    then have "consistent (pcs s u) (heap s') out = consistent (pcs s u) (heap s) out"
      by (rule consistent_heap)
    then show ?thesis using p g1[OF x] by simp
  qed
  have h1: "f = fn (calls u) \<and> as = args (calls u) \<and> kw = kwargs (calls u) \<and>
            consistent (pcs s' u) (heap s') out"
    if x: "(u, f, as, kw, out) \<in> set (log s')" for u f as kw out
  proof (cases rule: cases_log)
    case same
    then show ?thesis using x g1[of u f as kw out] old[of u f as kw out] by simp
  next
    case (app a)
    then consider "(u, f, as, kw, out) \<in> set (log s)" | "(u, f, as, kw, out) = ?new"
      using x by auto
    then show ?thesis
    proof cases
      case 1
      then show ?thesis using g1[OF 1] old[OF 1] by simp
    next
      case 2
      then show ?thesis using step_invoke[OF st app(1)] by simp
    qed
  qed
  have sub: "set (log s) \<subseteq> set (log s')"
    by (cases rule: cases_log) auto
  have h2: "u \<in> fst ` set (log s')" if v: "invoked (pcs s' u)" for u
  proof (cases "u = t")
    case True
    from step_invoked[OF st] v True
    consider "invoked (pcs s t)" | a where "pcs s t = LInvoke a" by blast
    then show ?thesis
    proof cases
      case 1
      then show ?thesis using g2[of t] sub True by auto
    next
      case 2
      then have "log s' = log s @ [?new]" by (cases rule: cases_log) auto
      then show ?thesis using True by force
    qed
  next
    case False
    then have "invoked (pcs s u)" using step_pcs_other[OF st False] v by simp
    then show ?thesis using g2[of u] sub by auto
  qed
  have h3: "distinct (map fst (log s'))"
  proof (cases rule: cases_log)
    case same
    then show ?thesis using g3 by simp
  next
    case (app a)
    then show ?thesis using g3 notin[OF app(1)] by simp
  qed
  have h4: "out = apply_fn beh f as kw j"
    if j: "j < length (log s')" "log s' ! j = (u, f, as, kw, out)" for j u f as kw out
  proof (cases rule: cases_log)
    case same
    then show ?thesis using g4[of j u f as kw out] j by simp
  next
    case (app a)
    show ?thesis
    proof (cases "j < length (log s)")
      case True
      then show ?thesis using g4[of j u f as kw out] j app(2) by (simp add: nth_append)
    next
      case False
      then have "j = length (log s)" using j(1) app(2) by simp
      then show ?thesis using j(2) app(2) by auto
    qed
  qed
  show ?thesis unfolding inv_log_def using h1 h2 h3 h4 by blast
qed

lemma inv_log_init: "inv_log beh calls init"
  by (simp add: inv_log_def init_def)

lemma inv_log_exec:
  "inv calls s \<Longrightarrow> inv_log beh calls s \<Longrightarrow> exec beh calls sched s = Some s' \<Longrightarrow>
     inv_log beh calls s'"
proof (induction sched arbitrary: s)
  case Nil
  then show ?case by simp
next
  case (Cons t ts)
  then obtain s1 where s1: "step beh calls t s = Some s1" "exec beh calls ts s1 = Some s'"
    by (auto split: option.splits)
  show ?case
    using Cons.IH[OF inv_step[OF Cons.prems(1) s1(1)] inv_log_step[OF Cons.prems(2,1) s1(1)] s1(2)] .
qed

lemma written_settled: "written p = Some a \<Longrightarrow> consistent p h out \<Longrightarrow> settled (h a) out"
  by (cases p) auto

lemma written_invoked: "written p = Some a \<Longrightarrow> invoked p"
  by (cases p) auto

text \<open>
  C6, as the specification states it, fails: when the operation returns None, the leader
  reaches line 87 with both slots None, as they were when the record was created.
\<close>

theorem returns_none_sets_neither:
  "pcs (the (exec (const_beh (Returns PNone)) same_call [0,0,0,0,0,0,0] init)) 0 = LSet 0 \<and>
   res (heap (the (exec (const_beh (Returns PNone)) same_call [0,0,0,0,0,0,0] init)) 0) = PNone \<and>
   err (heap (the (exec (const_beh (Returns PNone)) same_call [0,0,0,0,0,0,0] init)) 0) = None"
  by (simp add: scen)

text \<open>
  C6, amended: in every reachable state, a leader that has left the try statement of lines
  76-81 has invoked its operation, with the parameters of its call, and its record holds:
  the returned value in the result slot and None in the error slot if the operation
  returned; None in the result slot and the exception in the error slot if it raised an
  \<open>Exception\<close>. So the two slots are never both set, and neither is set when the
  operation returned None.
\<close>

theorem slots_after_operation:
  assumes "exec beh calls sched init = Some s" and "written (pcs s t) = Some a"
  shows "\<exists>out. (t, fn (calls t), args (calls t), kwargs (calls t), out) \<in> set (log s) \<and>
           (case out of
              Returns v \<Rightarrow> res (heap s a) = v \<and> err (heap s a) = None
            | Raises e \<Rightarrow> is_Exception e \<and> res (heap s a) = PNone \<and> err (heap s a) = Some e
            | Hangs \<Rightarrow> False) \<and>
           (res (heap s a) = PNone \<or> err (heap s a) = None)"
proof -
  have i: "inv calls s" using inv_exec[OF inv_init assms(1)] .
  have il: "inv_log beh calls s" using inv_log_exec[OF inv_init inv_log_init assms(1)] .
  have "t \<in> fst ` set (log s)"
    using il written_invoked[OF assms(2)] unfolding inv_log_def by blast
  then obtain f as kw out where x: "(t, f, as, kw, out) \<in> set (log s)" by force
  have c: "f = fn (calls t) \<and> as = args (calls t) \<and> kw = kwargs (calls t) \<and>
           consistent (pcs s t) (heap s) out"
    using il x unfolding inv_log_def by blast
  have s: "settled (heap s a) out" using written_settled[OF assms(2)] c by blast
  show ?thesis
    by (rule exI[of _ out]) (use x c s in \<open>cases out; auto\<close>)
qed

theorem slots_after_operation_witness:
  "written (pcs (the (exec (const_beh (Raises (Custom ''Boom'' True True))) same_call
                   [0,0,0,0,0,0,0,0] init)) 0) = Some 0 \<and>
   res (heap (the (exec (const_beh (Raises (Custom ''Boom'' True True))) same_call
                   [0,0,0,0,0,0,0,0] init)) 0) = PNone \<and>
   err (heap (the (exec (const_beh (Raises (Custom ''Boom'' True True))) same_call
                   [0,0,0,0,0,0,0,0] init)) 0) = Some (Custom ''Boom'' True True)"
proof -
  let ?B = "const_beh (Raises (Custom ''Boom'' True True))"
  let ?s = "the (exec ?B same_call [0,0,0,0,0,0,0,0] init)"
  have h1: "exec ?B same_call [0,0,0,0,0,0,0,0] init = Some ?s" by (simp add: scen)
  have h2: "written (pcs ?s 0) = Some 0" by (simp add: scen)
  have l: "log ?s = [(0, PFunc 0, [], [], Raises (Custom ''Boom'' True True))]"
    by (simp add: scen)
  from slots_after_operation[OF h1 h2] obtain out where
    o: "(0, fn (same_call 0), args (same_call 0), kwargs (same_call 0), out) \<in> set (log ?s)"
    and c: "(case out of
              Returns v \<Rightarrow> res (heap ?s 0) = v \<and> err (heap ?s 0) = None
            | Raises e \<Rightarrow> is_Exception e \<and> res (heap ?s 0) = PNone \<and> err (heap ?s 0) = Some e
            | Hangs \<Rightarrow> False)"
    by blast
  have "out = Raises (Custom ''Boom'' True True)" using o unfolding l by simp
  then show ?thesis using c h2 by simp
qed

text \<open>In every interleaving the leader delivers what its own invocation did.\<close>

lemma leader_delivers:
  assumes "exec beh calls sched init = Some s"
    and "(t, f, as, kw, out) \<in> set (log s)" and "pcs s t = Done r"
  shows "delivered r out \<and> f = fn (calls t) \<and> as = args (calls t) \<and> kw = kwargs (calls t)"
  using inv_log_exec[OF inv_init inv_log_init assms(1)] assms(2,3)
  unfolding inv_log_def by fastforce

lemma invoked_at_most_once:
  assumes "exec beh calls sched init = Some s"
  shows "distinct (map fst (log s))"
  using inv_log_exec[OF inv_init inv_log_init assms(1)] unfolding inv_log_def by blast

section \<open>A caller that finds its key absent\<close>















end
